theory Spec2Isabelle
  imports Main
begin

section \<open>Python text\<close>

text \<open>
  A Python \<open>str\<close> is a sequence of Unicode code points, so text is a list of code points
  here: \<open>len\<close> is \<open>length\<close>, slicing is \<open>take\<close> and \<open>drop\<close>. \<open>py\<close> reads an ASCII
  literal. The character tables below (white space, decimal digits, lower case) are exact
  for code points up to U+00FF; white space is exact everywhere; the decimal digits and
  the case pairs of other scripts are left out.
\<close>

type_synonym pystr = "nat list"

definition py :: "string \<Rightarrow> pystr" where
  "py s = map (of_char :: char \<Rightarrow> nat) s"

definition isspace :: "nat \<Rightarrow> bool" where
  "isspace c \<longleftrightarrow>
     (9 \<le> c \<and> c \<le> 13) \<or> (28 \<le> c \<and> c \<le> 32) \<or> c = 133 \<or> c = 160 \<or> c = 5760 \<or>
     (8192 \<le> c \<and> c \<le> 8202) \<or> c = 8232 \<or> c = 8233 \<or> c = 8239 \<or> c = 8287 \<or> c = 12288"

definition isdigit :: "nat \<Rightarrow> bool" where
  "isdigit c \<longleftrightarrow> 48 \<le> c \<and> c \<le> 57"

definition lower_char :: "nat \<Rightarrow> nat" where
  "lower_char c =
     (if (65 \<le> c \<and> c \<le> 90) \<or> (192 \<le> c \<and> c \<le> 222 \<and> c \<noteq> 215) then c + 32 else c)"

definition lower :: "pystr \<Rightarrow> pystr" where
  "lower s = map lower_char s"

definition lstrip :: "pystr \<Rightarrow> pystr" where
  "lstrip s = dropWhile isspace s"

definition rstrip :: "pystr \<Rightarrow> pystr" where
  "rstrip s = rev (dropWhile isspace (rev s))"

definition strip :: "pystr \<Rightarrow> pystr" where
  "strip s = rstrip (lstrip s)"

definition startswith :: "pystr \<Rightarrow> pystr \<Rightarrow> bool" where
  "startswith s p \<longleftrightarrow> take (length p) s = p"

definition endswith :: "pystr \<Rightarrow> pystr \<Rightarrow> bool" where
  "endswith s p \<longleftrightarrow> length p \<le> length s \<and> drop (length s - length p) s = p"

text \<open>\<open>sub in s\<close>: \<open>sub\<close> occurs in \<open>s\<close> as a contiguous run.\<close>

primrec contains :: "pystr \<Rightarrow> pystr \<Rightarrow> bool" where
  "contains [] sub = (sub = [])"
| "contains (c # cs) sub = (startswith (c # cs) sub \<or> contains cs sub)"

text \<open>\<open>s[1:-1]\<close>.\<close>

definition inner :: "pystr \<Rightarrow> pystr" where
  "inner s = butlast (tl s)"

text \<open>\<open>str(n)\<close> for an integer: its decimal digits.\<close>

fun str_nat :: "nat \<Rightarrow> pystr" where
  "str_nat n = (if n < 10 then [48 + n] else str_nat (n div 10) @ [48 + n mod 10])"

declare str_nat.simps [simp del]

definition str_int :: "int \<Rightarrow> pystr" where
  "str_int i = (if i < 0 then 45 # str_nat (nat (- i)) else str_nat (nat i))"

text \<open>\<open>s.split(sep)\<close> for a one-character separator.\<close>

primrec split_on :: "nat \<Rightarrow> pystr \<Rightarrow> pystr list" where
  "split_on sep [] = [[]]"
| "split_on sep (c # cs) =
     (if c = sep then [] # split_on sep cs
      else (case split_on sep cs of p # ps \<Rightarrow> (c # p) # ps | [] \<Rightarrow> [[c]]))"

section \<open>Values\<close>

text \<open>
  What \<open>json.loads\<close> returns. \<open>JNull\<close> is Python's \<open>None\<close>: it is JSON \<open>null\<close> and it is
  also what the program uses for "no value". A float is kept as the numeric literal it
  was read from: the program never computes with one, and the one place that prints a
  float takes the printer as a parameter. An object is a \<open>dict\<close>: its items in
  insertion order, with distinct keys.
\<close>

datatype pyfloat = FloatLit pystr

datatype json =
    JNull
  | JBool bool
  | JInt int
  | JFloat pyfloat
  | JStr pystr
  | JArr "json list"
  | JObj "(pystr \<times> json) list"

datatype exn =
    KeyError pystr
  | ValueError
  | UnicodeDecodeError
  | UnicodeEncodeError

text \<open>
  The \<open>isinstance\<close> tests of the source. \<open>bool\<close> is a subclass of \<open>int\<close> in Python, so
  \<open>isinstance(v, (int, float))\<close> holds of \<open>True\<close> and \<open>False\<close> as well.
\<close>

fun is_dict :: "json \<Rightarrow> bool" where
  "is_dict (JObj kvs) = True"
| "is_dict v = False"

fun is_list :: "json \<Rightarrow> bool" where
  "is_list (JArr vs) = True"
| "is_list v = False"

fun is_str :: "json \<Rightarrow> bool" where
  "is_str (JStr s) = True"
| "is_str v = False"

fun is_bool :: "json \<Rightarrow> bool" where
  "is_bool (JBool b) = True"
| "is_bool v = False"

fun is_int_or_float :: "json \<Rightarrow> bool" where
  "is_int_or_float (JBool b) = True"
| "is_int_or_float (JInt i) = True"
| "is_int_or_float (JFloat f) = True"
| "is_int_or_float v = False"

text \<open>\<open>type(v).__name__\<close> and \<open>len(v)\<close> of a container.\<close>

fun type_name :: "json \<Rightarrow> pystr" where
  "type_name JNull = py ''NoneType''"
| "type_name (JBool b) = py ''bool''"
| "type_name (JInt i) = py ''int''"
| "type_name (JFloat f) = py ''float''"
| "type_name (JStr s) = py ''str''"
| "type_name (JArr vs) = py ''list''"
| "type_name (JObj kvs) = py ''dict''"

fun len :: "json \<Rightarrow> nat" where
  "len (JObj kvs) = length kvs"
| "len (JArr vs) = length vs"
| "len (JStr s) = length s"
| "len v = 0"

section \<open>Query engine\<close>

subsection \<open>\<open>type_label\<close>\<close>

text \<open>The bullet of the two container labels is U+2022.\<close>

definition type_label :: "json \<Rightarrow> pystr" where
  "type_label v =
     (if is_dict v then py ''object '' @ [8226] @ py '' '' @ str_nat (len v) @ py '' key(s)''
      else if is_list v then py ''array '' @ [8226] @ py '' '' @ str_nat (len v) @ py '' item(s)''
      else if is_str v then py ''string''
      else if is_bool v then py ''boolean''
      else if is_int_or_float v then py ''number''
      else if v = JNull then py ''null''
      else type_name v)"

subsection \<open>\<open>count_nodes\<close>\<close>

record stats =
  objects :: nat
  arrays :: nat
  strings :: nat
  numbers :: nat
  booleans :: nat
  nulls :: nat
  total_nodes :: nat

text \<open>
  \<open>_walk\<close> updates the dictionary \<open>stats\<close> of the enclosing call; here it takes the
  counters and returns them updated. The scalar branch keeps the order of the source's
  tests: \<open>str\<close>, then \<open>(int, float)\<close>, then \<open>bool\<close>, then \<open>None\<close>.
\<close>

fun walk :: "json \<Rightarrow> stats \<Rightarrow> stats"
  and walk_values :: "(pystr \<times> json) list \<Rightarrow> stats \<Rightarrow> stats"
  and walk_elems :: "json list \<Rightarrow> stats \<Rightarrow> stats" where
  "walk (JObj kvs) st =
     walk_values kvs (st\<lparr>total_nodes := total_nodes st + 1, objects := objects st + 1\<rparr>)"
| "walk (JArr vs) st =
     walk_elems vs (st\<lparr>total_nodes := total_nodes st + 1, arrays := arrays st + 1\<rparr>)"
| "walk n st =
     (let st = st\<lparr>total_nodes := total_nodes st + 1\<rparr>
      in if is_str n then st\<lparr>strings := strings st + 1\<rparr>
         else if is_int_or_float n then st\<lparr>numbers := numbers st + 1\<rparr>
         else if is_bool n then st\<lparr>booleans := booleans st + 1\<rparr>
         else if n = JNull then st\<lparr>nulls := nulls st + 1\<rparr>
         else st\<lparr>strings := strings st + 1\<rparr>)"
| "walk_values [] st = st"
| "walk_values ((k, v) # kvs) st = walk_values kvs (walk v st)"
| "walk_elems [] st = st"
| "walk_elems (v # vs) st = walk_elems vs (walk v st)"

definition count_nodes :: "json \<Rightarrow> stats" where
  "count_nodes node =
     walk node \<lparr>objects = 0, arrays = 0, strings = 0, numbers = 0, booleans = 0, nulls = 0,
                total_nodes = 0\<rparr>"

subsection \<open>\<open>search_json\<close>\<close>

text \<open>
  \<open>str(v)\<close> of a scalar, with the printer of floats as a parameter. The source calls it on
  no container.
\<close>

fun str_value :: "(pyfloat \<Rightarrow> pystr) \<Rightarrow> json \<Rightarrow> pystr" where
  "str_value fs JNull = py ''None''"
| "str_value fs (JBool b) = (if b then py ''True'' else py ''False'')"
| "str_value fs (JInt i) = str_int i"
| "str_value fs (JFloat f) = fs f"
| "str_value fs (JStr s) = s"
| "str_value fs v = []"

text \<open>The closing loop of \<open>search_json\<close>: keep the first occurrence of every hit.\<close>

fun unique_loop :: "pystr list \<Rightarrow> pystr set \<Rightarrow> pystr list \<Rightarrow> pystr list" where
  "unique_loop [] seen out = out"
| "unique_loop (h # hs) seen out =
     (if h \<notin> seen then unique_loop hs (insert h seen) (out @ [h])
      else unique_loop hs seen out)"

definition unique :: "pystr list \<Rightarrow> pystr list" where
  "unique hits = unique_loop hits {} []"

text \<open>
  The two \<open>for\<close> loops are \<open>search_items\<close> and \<open>search_elems\<close> (with the index of
  \<open>enumerate\<close>); what they return is \<open>hits\<close>. The recursive calls get the lowered query
  \<open>q\<close>, as in the source.
\<close>

fun search_json :: "(pyfloat \<Rightarrow> pystr) \<Rightarrow> json \<Rightarrow> pystr \<Rightarrow> pystr \<Rightarrow> pystr list"
  and search_items ::
    "(pyfloat \<Rightarrow> pystr) \<Rightarrow> (pystr \<times> json) list \<Rightarrow> pystr \<Rightarrow> pystr \<Rightarrow> pystr list"
  and search_elems ::
    "(pyfloat \<Rightarrow> pystr) \<Rightarrow> json list \<Rightarrow> nat \<Rightarrow> pystr \<Rightarrow> pystr \<Rightarrow> pystr list" where
  "search_json fs (JObj kvs) query path = unique (search_items fs kvs (lower query) path)"
| "search_json fs (JArr vs) query path = unique (search_elems fs vs 0 (lower query) path)"
| "search_json fs node query path = unique []"
| "search_items fs [] q path = []"
| "search_items fs ((k, v) # kvs) q path =
     (let k_path = (if path \<noteq> [] then path @ py ''.'' @ k else k)
      in (if contains (lower k) q then [k_path] else []) @
         (if is_dict v \<or> is_list v then search_json fs v q k_path
          else if contains (lower (str_value fs v)) q then [k_path] else []) @
         search_items fs kvs q path)"
| "search_elems fs [] i q path = []"
| "search_elems fs (v # vs) i q path =
     (let i_path = path @ py ''['' @ str_nat i @ py '']''
      in (if is_dict v \<or> is_list v then search_json fs v q i_path
          else if contains (lower (str_value fs v)) q then [i_path] else []) @
         search_elems fs vs (Suc i) q path)"

subsection \<open>\<open>extract_by_path\<close>\<close>

text \<open>
  \<open>re.findall(r"[^\[\]]+|\[\d+\]", segment)\<close>, scanning from the left: a longest run of
  characters other than the two brackets, or else a bracketed run of digits, or else one
  character is passed over. \<open>match_index\<close> is the second alternative at the start of the
  text: the token and what follows it.
\<close>

definition match_index :: "pystr \<Rightarrow> (pystr \<times> pystr) option" where
  "match_index s =
     (case s of
        [] \<Rightarrow> None
      | c # cs \<Rightarrow>
          (let ds = takeWhile isdigit cs; r = dropWhile isdigit cs
           in if c = 91 \<and> ds \<noteq> [] \<and> startswith r [93]
              then Some (91 # ds @ [93], tl r) else None))"

lemma match_index_shorter: "match_index s = Some (tok, rest) \<Longrightarrow> length rest < length s"
proof -
  assume m: "match_index s = Some (tok, rest)"
  then obtain c cs where s: "s = c # cs"
    by (cases s) (auto simp: match_index_def)
  from m s have "rest = tl (dropWhile isdigit cs)"
    by (auto simp: match_index_def Let_def split: if_splits)
  moreover have "length (tl (dropWhile isdigit cs)) \<le> length cs"
    using length_dropWhile_le [of isdigit cs] by simp
  ultimately show ?thesis using s by simp
qed

function findall_tokens :: "pystr \<Rightarrow> pystr list" where
  "findall_tokens s =
     (if s = [] then []
      else if takeWhile (\<lambda>c. c \<noteq> 91 \<and> c \<noteq> 93) s \<noteq> []
      then takeWhile (\<lambda>c. c \<noteq> 91 \<and> c \<noteq> 93) s #
           findall_tokens (dropWhile (\<lambda>c. c \<noteq> 91 \<and> c \<noteq> 93) s)
      else (case match_index s of
              Some (tok, rest) \<Rightarrow> tok # findall_tokens rest
            | None \<Rightarrow> findall_tokens (tl s)))"
  by pat_completeness auto
termination
proof (relation "measure length")
  show "wf (measure length)" by simp
next
  fix s :: pystr
  assume "s \<noteq> []" and run: "takeWhile (\<lambda>c. c \<noteq> 91 \<and> c \<noteq> 93) s \<noteq> []"
  have "length (takeWhile (\<lambda>c. c \<noteq> 91 \<and> c \<noteq> 93) s) +
        length (dropWhile (\<lambda>c. c \<noteq> 91 \<and> c \<noteq> 93) s) = length s"
    using takeWhile_dropWhile_id [of "\<lambda>c. c \<noteq> 91 \<and> c \<noteq> 93" s]
    by (metis length_append)
  with run show "(dropWhile (\<lambda>c. c \<noteq> 91 \<and> c \<noteq> 93) s, s) \<in> measure length"
    by (cases "takeWhile (\<lambda>c. c \<noteq> 91 \<and> c \<noteq> 93) s") auto
next
  fix s :: pystr and x2 :: "pystr \<times> pystr" and tok rest
  assume "match_index s = Some x2" and "(tok, rest) = x2"
  then show "(rest, s) \<in> measure length"
    using match_index_shorter [of s tok rest] by simp
next
  fix s :: pystr
  assume "s \<noteq> []"
  then show "(tl s, s) \<in> measure length" by (cases s) auto
qed

declare findall_tokens.simps [simp del]

text \<open>
  \<open>int(tok[1:-1])\<close>. The source calls \<open>int\<close> on the inside of a token that starts with a
  bracket; on anything but a run of digits it raises \<open>ValueError\<close>.
\<close>

definition py_int :: "pystr \<Rightarrow> exn + nat" where
  "py_int s =
     (if s \<noteq> [] \<and> list_all isdigit s
      then Inr (foldl (\<lambda>n c. 10 * n + (c - 48)) 0 s) else Inl ValueError)"

definition path_tokens :: "pystr \<Rightarrow> pystr list" where
  "path_tokens path = concat (map findall_tokens (split_on 46 path))"

fun traverse :: "json \<Rightarrow> pystr list \<Rightarrow> exn + json" where
  "traverse cur [] = Inr cur"
| "traverse cur (tok # toks) =
     (if startswith tok (py ''['')
      then (case py_int (inner tok) of
              Inl e \<Rightarrow> Inl e
            | Inr idx \<Rightarrow>
                (case cur of
                   JArr vs \<Rightarrow>
                     if idx \<ge> length vs
                     then Inl (KeyError (py ''Index out of range at '' @ tok))
                     else traverse (vs ! idx) toks
                 | _ \<Rightarrow> Inl (KeyError (py ''Index out of range at '' @ tok))))
      else (case cur of
              JObj kvs \<Rightarrow>
                (case map_of kvs tok of
                   None \<Rightarrow> Inl (KeyError (py ''Key not found: '' @ tok))
                 | Some v \<Rightarrow> traverse v toks)
            | _ \<Rightarrow> Inl (KeyError (py ''Key not found: '' @ tok))))"

definition extract_by_path :: "json \<Rightarrow> pystr \<Rightarrow> exn + json" where
  "extract_by_path node path =
     (if path = [] then Inr node else traverse node (path_tokens path))"

section \<open>Properties of the query engine\<close>

text \<open>
  C9. \<open>type_label\<close> labels a boolean \<open>boolean\<close> and never \<open>number\<close>; an integer or a
  float that is no boolean is a \<open>number\<close>; an object is labelled with the number of its
  keys and an array with the number of its items; a string is a \<open>string\<close> and \<open>None\<close> is
  \<open>null\<close>.
\<close>

theorem type_label_classifies:
  "type_label (JBool b) = py ''boolean'' \<and> type_label (JBool b) \<noteq> py ''number'' \<and>
   type_label (JInt i) = py ''number'' \<and> type_label (JFloat f) = py ''number'' \<and>
   type_label (JObj kvs) =
     py ''object '' @ [8226] @ py '' '' @ str_nat (length kvs) @ py '' key(s)'' \<and>
   type_label (JArr vs) =
     py ''array '' @ [8226] @ py '' '' @ str_nat (length vs) @ py '' item(s)'' \<and>
   type_label (JStr s) = py ''string'' \<and> type_label JNull = py ''null''"
  by (simp add: type_label_def py_def)

theorem type_label_classifies_witness:
  "type_label (JBool True) = py ''boolean'' \<and>
   type_label (JInt 7) = py ''number'' \<and>
   type_label (JObj [(py ''a'', JInt 1), (py ''b'', JNull)]) =
     py ''object '' @ [8226] @ py '' 2 key(s)'' \<and>
   type_label (JArr [JNull, JNull, JNull]) = py ''array '' @ [8226] @ py '' 3 item(s)''"
  using type_label_classifies [of True 7 "FloatLit []" "[(py ''a'', JInt 1), (py ''b'', JNull)]"
      "[JNull, JNull, JNull]" "[]"]
  by (simp add: str_nat.simps py_def)

text \<open>
  C10. With the empty path \<open>extract_by_path\<close> returns the value it was given and raises
  nothing.
\<close>

theorem extract_by_path_empty: "extract_by_path v (py '''') = Inr v"
  by (simp add: extract_by_path_def py_def)

theorem extract_by_path_empty_witness:
  "extract_by_path (JArr [JInt 1, JStr (py ''x'')]) (py '''') = Inr (JArr [JInt 1, JStr (py ''x'')])"
  using extract_by_path_empty [of "JArr [JInt 1, JStr (py ''x'')]"] by simp

section \<open>What the query engine is specified to compute\<close>

text \<open>
  The descriptions below follow the specification, not the code. \<open>child\<close> is the value
  one path token further on (an element of an array for a bracketed index, a member of an
  object for a key); \<open>descend\<close> follows a list of tokens; \<open>path_error\<close> is the error
  that names a token.
\<close>

definition child :: "json \<Rightarrow> pystr \<Rightarrow> json option" where
  "child cur tok =
     (if startswith tok (py ''['')
      then (case cur of
              JArr vs \<Rightarrow>
                (case py_int (inner tok) of
                   Inr idx \<Rightarrow> if idx < length vs then Some (vs ! idx) else None
                 | Inl e \<Rightarrow> None)
            | _ \<Rightarrow> None)
      else (case cur of JObj kvs \<Rightarrow> map_of kvs tok | _ \<Rightarrow> None))"

fun descend :: "json \<Rightarrow> pystr list \<Rightarrow> json option" where
  "descend cur [] = Some cur"
| "descend cur (tok # toks) =
     (case child cur tok of None \<Rightarrow> None | Some v \<Rightarrow> descend v toks)"

definition path_error :: "pystr \<Rightarrow> exn" where
  "path_error tok =
     KeyError (if startswith tok (py ''['') then py ''Index out of range at '' @ tok
               else py ''Key not found: '' @ tok)"

text \<open>
  For the search: \<open>occurrences\<close> lists, in the order of the traversal, every object key
  and every scalar value together with its path (dot notation for keys, \<open>[i]\<close> for
  indices); \<open>matches\<close> is the case-insensitive substring test; \<open>first_occurrences\<close>
  removes repetitions and keeps the first occurrence of each element. \<open>repr_literal\<close>
  prints a float as the literal it was read from: a printer for closed examples.
\<close>

definition repr_literal :: "pyfloat \<Rightarrow> pystr" where
  "repr_literal f = (case f of FloatLit s \<Rightarrow> s)"

definition key_path :: "pystr \<Rightarrow> pystr \<Rightarrow> pystr" where
  "key_path path k = (if path \<noteq> [] then path @ py ''.'' @ k else k)"

definition index_path :: "pystr \<Rightarrow> nat \<Rightarrow> pystr" where
  "index_path path i = path @ py ''['' @ str_nat i @ py '']''"

fun occurrences :: "(pyfloat \<Rightarrow> pystr) \<Rightarrow> json \<Rightarrow> pystr \<Rightarrow> (pystr \<times> pystr) list"
  and occurrences_items ::
    "(pyfloat \<Rightarrow> pystr) \<Rightarrow> (pystr \<times> json) list \<Rightarrow> pystr \<Rightarrow> (pystr \<times> pystr) list"
  and occurrences_elems ::
    "(pyfloat \<Rightarrow> pystr) \<Rightarrow> json list \<Rightarrow> nat \<Rightarrow> pystr \<Rightarrow> (pystr \<times> pystr) list" where
  "occurrences fs (JObj kvs) path = occurrences_items fs kvs path"
| "occurrences fs (JArr vs) path = occurrences_elems fs vs 0 path"
| "occurrences fs v path = [(path, str_value fs v)]"
| "occurrences_items fs [] path = []"
| "occurrences_items fs ((k, v) # kvs) path =
     (key_path path k, k) # occurrences fs v (key_path path k) @ occurrences_items fs kvs path"
| "occurrences_elems fs [] i path = []"
| "occurrences_elems fs (v # vs) i path =
     occurrences fs v (index_path path i) @ occurrences_elems fs vs (Suc i) path"

definition matches :: "pystr \<Rightarrow> pystr \<Rightarrow> bool" where
  "matches query text \<longleftrightarrow> contains (lower text) (lower query)"

definition first_occurrences :: "'a list \<Rightarrow> 'a list" where
  "first_occurrences xs = rev (remdups (rev xs))"

definition search_spec :: "(pyfloat \<Rightarrow> pystr) \<Rightarrow> json \<Rightarrow> pystr \<Rightarrow> pystr list" where
  "search_spec fs node query =
     first_occurrences (map fst (filter (\<lambda>(p, t). matches query t) (occurrences fs node [])))"

section \<open>Properties of the query engine, continued\<close>

subsection \<open>\<open>count_nodes\<close>\<close>

text \<open>
  C4. For \<open>{"a":1,"b":[true,null]}\<close> the source counts two numbers and no boolean, not
  one of each: \<open>True\<close> is an instance of \<open>int\<close> and the test for \<open>(int, float)\<close> comes
  before the test for \<open>bool\<close>. Every node is counted once in the total.
\<close>

theorem count_nodes_example:
  "count_nodes (JObj [(py ''a'', JInt 1), (py ''b'', JArr [JBool True, JNull])]) =
     \<lparr>objects = 1, arrays = 1, strings = 0, numbers = 2, booleans = 0, nulls = 1,
      total_nodes = 5\<rparr>"
  by (simp add: count_nodes_def)

text \<open>No value makes the counter of booleans move.\<close>

lemma walk_booleans:
  "booleans (walk n st) = booleans st"
  "booleans (walk_values kvs st) = booleans st"
  "booleans (walk_elems vs st) = booleans st"
  by (induction n st and kvs st and vs st rule: walk_walk_values_walk_elems.induct)
    (simp_all add: Let_def)

lemma count_nodes_booleans: "booleans (count_nodes v) = 0"
  by (simp add: count_nodes_def walk_booleans)

subsection \<open>\<open>extract_by_path\<close>\<close>

lemma findall_index_token:
  "tok \<in> set (findall_tokens s) \<Longrightarrow> startswith tok (py ''['') \<Longrightarrow>
   \<exists>ds. ds \<noteq> [] \<and> list_all isdigit ds \<and> tok = 91 # ds @ [93]"
proof (induction s rule: findall_tokens.induct)
  case (1 s)
  let ?run = "takeWhile (\<lambda>c. c \<noteq> 91 \<and> c \<noteq> 93) s"
  show ?case
  proof (cases "s = []")
    case True
    with "1.prems" show ?thesis by (simp add: findall_tokens.simps [of "[]"])
  next
    case ne: False
    show ?thesis
    proof (cases "?run = []")
      case False
      with ne "1.prems" have "tok = ?run \<or> tok \<in> set (findall_tokens (dropWhile (\<lambda>c. c \<noteq> 91 \<and> c \<noteq> 93) s))"
        by (simp add: findall_tokens.simps [of s])
      then show ?thesis
      proof
        assume t: "tok = ?run"
        from False have "hd ?run \<in> set ?run" by simp
        then have "hd ?run \<noteq> 91" by (auto dest: set_takeWhileD)
        with t False "1.prems"(2) show ?thesis
          by (cases ?run) (auto simp: startswith_def py_def)
      next
        assume "tok \<in> set (findall_tokens (dropWhile (\<lambda>c. c \<noteq> 91 \<and> c \<noteq> 93) s))"
        then show ?thesis
          using "1.IH"(1) [OF ne False _ "1.prems"(2)] by simp
      qed
    next
      case run: True
      show ?thesis
      proof (cases "match_index s")
        case None
        with ne run "1.prems" have "tok \<in> set (findall_tokens (tl s))"
          by (simp add: findall_tokens.simps [of s])
        moreover have "\<not> ?run \<noteq> []" using run by simp
        ultimately show ?thesis
          using "1.IH"(2) [OF ne _ None _ "1.prems"(2)] by simp
      next
        case (Some tr)
        obtain t rest where tr: "tr = (t, rest)" by (cases tr)
        with Some ne run "1.prems" have "tok = t \<or> tok \<in> set (findall_tokens rest)"
          by (simp add: findall_tokens.simps [of s])
        then show ?thesis
        proof
          assume "tok = t"
          with Some tr obtain c cs where "s = c # cs" and "t = 91 # takeWhile isdigit cs @ [93]"
            and "takeWhile isdigit cs \<noteq> []"
            by (cases s) (auto simp: match_index_def Let_def split: if_splits)
          moreover have "list_all isdigit (takeWhile isdigit cs)"
            by (simp add: list_all_iff) (meson set_takeWhileD)
          ultimately show ?thesis using \<open>tok = t\<close> by blast
        next
          assume "tok \<in> set (findall_tokens rest)"
          moreover have "\<not> ?run \<noteq> []" using run by simp
          ultimately show ?thesis
            using "1.IH"(3) [OF ne _ Some tr [symmetric] _ "1.prems"(2)] by simp
        qed
      qed
    qed
  qed
qed

lemma path_token_int:
  assumes "tok \<in> set (path_tokens path)" and "startswith tok (py ''['')"
  shows "\<exists>n. py_int (inner tok) = Inr n"
proof -
  from assms(1) obtain seg where "tok \<in> set (findall_tokens seg)"
    by (auto simp: path_tokens_def)
  with assms(2) obtain ds where "ds \<noteq> []" "list_all isdigit ds" "tok = 91 # ds @ [93]"
    using findall_index_token by blast
  then show ?thesis by (simp add: py_int_def inner_def butlast_append)
qed

lemma traverse_descend:
  assumes "\<forall>tok \<in> set toks. startswith tok (py ''['') \<longrightarrow> (\<exists>n. py_int (inner tok) = Inr n)"
  shows "case descend cur toks of
           Some v \<Rightarrow> traverse cur toks = Inr v
         | None \<Rightarrow> (\<exists>pre tok post c. toks = pre @ tok # post \<and> descend cur pre = Some c \<and>
                       child c tok = None \<and> traverse cur toks = Inl (path_error tok))"
  using assms
proof (induction toks arbitrary: cur)
  case Nil
  then show ?case by simp
next
  case (Cons tok toks)
  show ?case
  proof (cases "child cur tok")
    case None
    have "traverse cur (tok # toks) = Inl (path_error tok)"
    proof (cases "startswith tok (py ''['')")
      case True
      with Cons.prems obtain n where "py_int (inner tok) = Inr n" by auto
      with True None show ?thesis
        by (auto simp: child_def path_error_def split: json.splits if_splits)
    next
      case False
      with None show ?thesis
        by (auto simp: child_def path_error_def split: json.splits)
    qed
    moreover have "descend cur [] = Some cur" by simp
    ultimately have "\<exists>pre t post c. tok # toks = pre @ t # post \<and> descend cur pre = Some c \<and>
        child c t = None \<and> traverse cur (tok # toks) = Inl (path_error t)"
      using None by (metis append_Nil)
    with None show ?thesis by simp
  next
    case (Some v)
    have step: "traverse cur (tok # toks) = traverse v toks"
    proof (cases "startswith tok (py ''['')")
      case True
      with Some show ?thesis
        by (auto simp: child_def split: json.splits sum.splits if_splits)
    next
      case False
      with Some show ?thesis
        by (auto simp: child_def split: json.splits)
    qed
    from Cons.prems have IH: "case descend v toks of
           Some w \<Rightarrow> traverse v toks = Inr w
         | None \<Rightarrow> (\<exists>pre t post c. toks = pre @ t # post \<and> descend v pre = Some c \<and>
                       child c t = None \<and> traverse v toks = Inl (path_error t))"
      using Cons.IH [of v] by simp
    show ?thesis
    proof (cases "descend v toks")
      case None
      with IH obtain pre t post c where "toks = pre @ t # post" "descend v pre = Some c"
        "child c t = None" "traverse v toks = Inl (path_error t)" by auto
      then have "tok # toks = (tok # pre) @ t # post \<and> descend cur (tok # pre) = Some c \<and>
        child c t = None \<and> traverse cur (tok # toks) = Inl (path_error t)"
        using Some step by simp
      then have "\<exists>pre t post c. tok # toks = pre @ t # post \<and> descend cur pre = Some c \<and>
        child c t = None \<and> traverse cur (tok # toks) = Inl (path_error t)" by blast
      with None Some show ?thesis by simp
    next
      case (Some w)
      with IH \<open>child cur tok = Some v\<close> step show ?thesis by simp
    qed
  qed
qed

text \<open>
  C7. The two examples of the specification, and the general rule: when every token can
  be followed the value reached is returned; otherwise the tokens before the failing one
  were followed, the failing one could not be, and the error is \<open>Key not found\<close> or
  \<open>Index out of range\<close> naming that token.
\<close>

theorem extract_by_path_result:
  "extract_by_path (JObj [(py ''items'', JArr [JObj [(py ''id'', JInt 5)]])]) (py ''items[0].id'')
     = Inr (JInt 5) \<and>
   extract_by_path (JObj [(py ''items'', JArr [JObj [(py ''id'', JInt 5)]])]) (py ''items[9].id'')
     = Inl (KeyError (py ''Index out of range at [9]'')) \<and>
   (case descend node (path_tokens path) of
      Some v \<Rightarrow> extract_by_path node path = Inr v
    | None \<Rightarrow>
        (\<exists>pre tok post cur.
            path_tokens path = pre @ tok # post \<and> descend node pre = Some cur \<and>
            child cur tok = None \<and> extract_by_path node path = Inl (path_error tok)))"
proof -
  have a: "extract_by_path (JObj [(py ''items'', JArr [JObj [(py ''id'', JInt 5)]])]) (py ''items[0].id'')
     = Inr (JInt 5)" by code_simp
  have b: "extract_by_path (JObj [(py ''items'', JArr [JObj [(py ''id'', JInt 5)]])]) (py ''items[9].id'')
     = Inl (KeyError (py ''Index out of range at [9]''))" by code_simp
  have e: "extract_by_path node path = traverse node (path_tokens path)"
    by (cases "path = []") (simp_all add: extract_by_path_def path_tokens_def findall_tokens.simps [of "[]"])
  have "\<forall>tok \<in> set (path_tokens path). startswith tok (py ''['') \<longrightarrow> (\<exists>n. py_int (inner tok) = Inr n)"
    using path_token_int by blast
  from traverse_descend [OF this, of node] a b show ?thesis unfolding e by simp
qed

theorem extract_by_path_result_witness:
  "\<exists>pre tok post cur.
      path_tokens (py ''a.b[1]'') = pre @ tok # post \<and>
      descend (JObj [(py ''a'', JObj [(py ''b'', JArr [JNull])])]) pre = Some cur \<and>
      child cur tok = None \<and>
      extract_by_path (JObj [(py ''a'', JObj [(py ''b'', JArr [JNull])])]) (py ''a.b[1]'') = Inl (path_error tok)"
proof -
  have "descend (JObj [(py ''a'', JObj [(py ''b'', JArr [JNull])])]) (path_tokens (py ''a.b[1]'')) = None"
    by code_simp
  with extract_by_path_result [where node = "JObj [(py ''a'', JObj [(py ''b'', JArr [JNull])])]"
      and path = "py ''a.b[1]''"]
  show ?thesis by simp
qed

subsection \<open>\<open>search_json\<close>\<close>

fun firsts :: "'a set \<Rightarrow> 'a list \<Rightarrow> 'a list" where
  "firsts S [] = []"
| "firsts S (x # xs) = (if x \<in> S then firsts S xs else x # firsts (insert x S) xs)"

lemma unique_loop_firsts: "unique_loop hs seen out = out @ firsts seen hs"
  by (induction hs arbitrary: seen out) auto

lemma unique_firsts: "unique hs = firsts {} hs"
  by (simp add: unique_def unique_loop_firsts)

lemma firsts_union: "firsts (S \<union> T) xs = filter (\<lambda>x. x \<notin> S) (firsts T xs)"
proof (induction xs arbitrary: T)
  case Nil
  then show ?case by simp
next
  case (Cons x xs)
  show ?case
  proof (cases "x \<in> T")
    case True
    then show ?thesis using Cons.IH [of T] by simp
  next
    case xT: False
    show ?thesis
    proof (cases "x \<in> S")
      case True
      then have "S \<union> insert x T = S \<union> T" by auto
      with True xT show ?thesis using Cons.IH [of T] Cons.IH [of "insert x T"] by simp
    next
      case False
      have "insert x (S \<union> T) = S \<union> insert x T" by auto
      with False xT show ?thesis using Cons.IH [of "insert x T"] by simp
    qed
  qed
qed

lemma firsts_filter: "firsts S xs = filter (\<lambda>x. x \<notin> S) (firsts {} xs)"
  using firsts_union [of S "{}" xs] by simp

lemma set_firsts: "set (firsts S xs) = set xs - S"
  by (induction xs arbitrary: S) auto

lemma distinct_firsts: "distinct (firsts S xs)"
  by (induction xs arbitrary: S) (auto simp: set_firsts)

lemma firsts_append: "firsts S (xs @ ys) = firsts S xs @ firsts (S \<union> set xs) ys"
proof (induction xs arbitrary: S)
  case Nil
  then show ?case by simp
next
  case (Cons x xs)
  have "x \<in> S \<Longrightarrow> S \<union> insert x (set xs) = S \<union> set xs" by auto
  moreover have "insert x S \<union> set xs = S \<union> insert x (set xs)" by auto
  ultimately show ?case using Cons.IH [of S] Cons.IH [of "insert x S"] by simp
qed

lemma firsts_distinct: "distinct xs \<Longrightarrow> set xs \<inter> S = {} \<Longrightarrow> firsts S xs = xs"
  by (induction xs arbitrary: S) auto

lemma firsts_first_occurrences: "firsts {} xs = first_occurrences xs"
proof (induction xs)
  case Nil
  then show ?case by (simp add: first_occurrences_def)
next
  case (Cons x xs)
  have "remdups (ys @ [x]) = filter (\<lambda>y. y \<noteq> x) (remdups ys) @ [x]" for ys
    by (induction ys) auto
  then have "remdups (rev xs @ [x]) = filter (\<lambda>y. y \<noteq> x) (remdups (rev xs)) @ [x]" .
  then have "first_occurrences (x # xs) = x # filter (\<lambda>y. y \<noteq> x) (first_occurrences xs)"
    by (simp add: first_occurrences_def rev_filter)
  moreover have "firsts {x} xs = filter (\<lambda>y. y \<noteq> x) (firsts {} xs)"
    using firsts_filter [of "{x}" xs] by simp
  ultimately show ?case using Cons.IH by simp
qed

lemma unique_append_cong:
  assumes "unique R = unique R'"
  shows "unique (A @ R) = unique (A @ R')"
proof -
  have "firsts (set A) R = firsts (set A) R'"
    using assms firsts_filter [of "set A" R] firsts_filter [of "set A" R']
    by (simp add: unique_firsts)
  then show ?thesis by (simp add: unique_firsts firsts_append)
qed

lemma unique_unique_append: "unique (unique H @ R) = unique (H @ R)"
proof -
  have "firsts {} (firsts {} H) = firsts {} H"
    by (rule firsts_distinct) (simp_all add: distinct_firsts)
  then show ?thesis by (simp add: unique_firsts firsts_append set_firsts)
qed

lemma lower_lower: "lower (lower s) = lower s"
  by (induction s) (auto simp: lower_def lower_char_def)

definition hits :: "pystr \<Rightarrow> (pystr \<times> pystr) list \<Rightarrow> pystr list" where
  "hits q occs = map fst (filter (\<lambda>(p, t). contains (lower t) q) occs)"

lemma hits_append: "hits q (xs @ ys) = hits q xs @ hits q ys"
  by (simp add: hits_def)

lemma search_json_hits:
  "(is_dict node \<or> is_list node \<longrightarrow>
      search_json fs node query path = unique (hits (lower query) (occurrences fs node path)))"
  and "(lower q = q \<longrightarrow>
      unique (search_items fs kvs q path) = unique (hits q (occurrences_items fs kvs path)))"
  and "(lower q = q \<longrightarrow>
      unique (search_elems fs vs i q path) = unique (hits q (occurrences_elems fs vs i path)))"
proof (induction fs node query path and fs kvs q path and fs vs i q path
    rule: search_json_search_items_search_elems.induct)
  case (1 fs kvs query path)
  then show ?case by (simp add: lower_lower)
next
  case (2 fs vs query path)
  then show ?case by (simp add: lower_lower)
next
  case (5 fs k v kvs q path)
  show ?case
  proof
    assume q: "lower q = q"
    let ?kp = "key_path path k"
    let ?K = "if contains (lower k) q then [?kp] else []"
    let ?V = "if is_dict v \<or> is_list v then search_json fs v q ?kp
              else if contains (lower (str_value fs v)) q then [?kp] else []"
    have items: "search_items fs ((k, v) # kvs) q path = ?K @ ?V @ search_items fs kvs q path"
      by (simp add: key_path_def Let_def)
    have occ: "hits q (occurrences_items fs ((k, v) # kvs) path) =
        ?K @ hits q (occurrences fs v ?kp) @ hits q (occurrences_items fs kvs path)"
      by (simp add: hits_def)
    have rest: "unique (search_items fs kvs q path) = unique (hits q (occurrences_items fs kvs path))"
      using "5.IH"(2) q by simp
    have "unique (?V @ search_items fs kvs q path) =
          unique (hits q (occurrences fs v ?kp) @ hits q (occurrences_items fs kvs path))"
    proof (cases "is_dict v \<or> is_list v")
      case True
      then have "search_json fs v q ?kp = unique (hits q (occurrences fs v ?kp))"
        using "5.IH"(1) [of ?kp] q by (simp add: key_path_def)
      with True have "unique (?V @ search_items fs kvs q path) =
          unique (hits q (occurrences fs v ?kp) @ search_items fs kvs q path)"
        by (simp add: unique_unique_append)
      also have "\<dots> = unique (hits q (occurrences fs v ?kp) @ hits q (occurrences_items fs kvs path))"
        by (rule unique_append_cong) (rule rest)
      finally show ?thesis .
    next
      case False
      then have "hits q (occurrences fs v ?kp) = ?V"
        by (cases v) (simp_all add: hits_def)
      then show ?thesis using unique_append_cong [OF rest] by simp
    qed
    then have "unique (?K @ ?V @ search_items fs kvs q path) =
          unique (?K @ hits q (occurrences fs v ?kp) @ hits q (occurrences_items fs kvs path))"
      by (rule unique_append_cong)
    with items occ show "unique (search_items fs ((k, v) # kvs) q path) =
        unique (hits q (occurrences_items fs ((k, v) # kvs) path))" by simp
  qed
next
  case (7 fs v vs i q path)
  show ?case
  proof
    assume q: "lower q = q"
    let ?ip = "index_path path i"
    let ?V = "if is_dict v \<or> is_list v then search_json fs v q ?ip
              else if contains (lower (str_value fs v)) q then [?ip] else []"
    have elems: "search_elems fs (v # vs) i q path = ?V @ search_elems fs vs (Suc i) q path"
      by (simp add: index_path_def Let_def)
    have occ: "hits q (occurrences_elems fs (v # vs) i path) =
        hits q (occurrences fs v ?ip) @ hits q (occurrences_elems fs vs (Suc i) path)"
      by (simp add: hits_def)
    have rest: "unique (search_elems fs vs (Suc i) q path) =
        unique (hits q (occurrences_elems fs vs (Suc i) path))"
      using "7.IH"(2) q by simp
    have "unique (?V @ search_elems fs vs (Suc i) q path) =
          unique (hits q (occurrences fs v ?ip) @ hits q (occurrences_elems fs vs (Suc i) path))"
    proof (cases "is_dict v \<or> is_list v")
      case True
      then have "search_json fs v q ?ip = unique (hits q (occurrences fs v ?ip))"
        using "7.IH"(1) [of ?ip] q by (simp add: index_path_def)
      with True have "unique (?V @ search_elems fs vs (Suc i) q path) =
          unique (hits q (occurrences fs v ?ip) @ search_elems fs vs (Suc i) q path)"
        by (simp add: unique_unique_append)
      also have "\<dots> = unique (hits q (occurrences fs v ?ip) @
          hits q (occurrences_elems fs vs (Suc i) path))"
        by (rule unique_append_cong) (rule rest)
      finally show ?thesis .
    next
      case False
      then have "hits q (occurrences fs v ?ip) = ?V"
        by (cases v) (simp_all add: hits_def)
      then show ?thesis using unique_append_cong [OF rest] by simp
    qed
    with elems occ show "unique (search_elems fs (v # vs) i q path) =
        unique (hits q (occurrences_elems fs (v # vs) i path))" by simp
  qed
qed (simp_all add: hits_def)

text \<open>
  C8 as stated fails at a root that is itself a scalar: the string \<open>foo\<close> matches the
  query \<open>foo\<close>, and the search returns no path.
\<close>

theorem search_json_root_scalar:
  "search_json repr_literal (JStr (py ''foo'')) (py ''foo'') (py '''') = [] \<and>
   search_spec repr_literal (JStr (py ''foo'')) (py ''foo'') = [py '''']"
  by (simp add: search_spec_def first_occurrences_def matches_def unique_def py_def lower_def lower_char_def startswith_def)

text \<open>
  C8, amended. For a root that is an object or an array, \<open>search_json\<close> returns the paths
  of all matching keys and scalar values, first occurrences only and in the order of the
  traversal; the two examples of the specification hold.
\<close>

theorem search_json_containers:
  "search_json fs (JObj [(py ''a'', JObj [(py ''b'', JStr (py ''foo''))])]) (py ''foo'') (py '''')
     = [py ''a.b''] \<and>
   search_json fs (JArr [JObj [(py ''x'', JInt 1)], JObj [(py ''x'', JInt 2)]]) (py ''2'') (py '''')
     = [py ''[1].x''] \<and>
   (is_dict node \<or> is_list node \<longrightarrow> search_json fs node query (py '''') = search_spec fs node query)"
proof -
  have a: "search_json fs (JObj [(py ''a'', JObj [(py ''b'', JStr (py ''foo''))])]) (py ''foo'') (py '''')
     = [py ''a.b'']"
    by (simp add: py_def lower_def lower_char_def unique_def startswith_def)
  have b: "search_json fs (JArr [JObj [(py ''x'', JInt 1)], JObj [(py ''x'', JInt 2)]]) (py ''2'') (py '''')
     = [py ''[1].x'']"
    by (simp add: py_def lower_def lower_char_def unique_def startswith_def str_int_def str_nat.simps)
  have "hits (lower query) (occurrences fs node []) =
      map fst (filter (\<lambda>(p, t). matches query t) (occurrences fs node []))"
    by (simp add: hits_def matches_def)
  then have "is_dict node \<or> is_list node \<longrightarrow> search_json fs node query (py '''') = search_spec fs node query"
    using search_json_hits(1) [of node fs query "[]"]
    by (simp add: search_spec_def unique_firsts firsts_first_occurrences py_def)
  with a b show ?thesis by simp
qed

theorem search_json_containers_witness:
  "(is_dict (JObj [(py ''Name'', JStr (py ''Ann'')), (py ''tags'', JArr [JStr (py ''x''), JStr (py ''name'')])]) \<or>
    is_list (JObj [(py ''Name'', JStr (py ''Ann'')), (py ''tags'', JArr [JStr (py ''x''), JStr (py ''name'')])])) \<and>
   search_spec repr_literal
     (JObj [(py ''Name'', JStr (py ''Ann'')), (py ''tags'', JArr [JStr (py ''x''), JStr (py ''name'')])])
     (py ''NAME'') = [py ''Name'', py ''tags[1]'']"
proof -
  have "search_json repr_literal
     (JObj [(py ''Name'', JStr (py ''Ann'')), (py ''tags'', JArr [JStr (py ''x''), JStr (py ''name'')])])
     (py ''NAME'') (py '''') = [py ''Name'', py ''tags[1]'']"
    by (simp add: py_def lower_def lower_char_def unique_def startswith_def str_nat.simps)
  then show ?thesis
    using search_json_containers [where fs = repr_literal and query = "py ''NAME''" and
        node = "JObj [(py ''Name'', JStr (py ''Ann'')), (py ''tags'', JArr [JStr (py ''x''), JStr (py ''name'')])]"]
    by simp
qed

end
